theory Spec2Isabelle
  imports Main "HOL-Library.Multiset" "HOL-Library.Sublist"
begin

section \<open>The event system of LittleMayaEngine (src/systems/EventSystem.h)\<close>

subsection \<open>Events, listeners and the world outside the event system\<close>

text \<open>
  A \<^verbatim>\<open>std::shared_ptr<Event>\<close> is modelled by the object it points to: its address
  (\<open>ptr\<close>), the \<open>priority\<close> stored by the constructor and the dynamic type that
  \<^verbatim>\<open>typeid(*event)\<close> reads (\<open>dyn_type\<close>). The priority is a C++ \<^verbatim>\<open>int\<close>
  that is only ever compared, never computed with, so it is an \<open>int\<close> here. Events
  are non-null: \<^verbatim>\<open>CompareEventPriority\<close> and \<^verbatim>\<open>typeid(*event)\<close> dereference
  the pointer without a check, so a null event is outside the model.
\<close>

type_synonym thread_id = nat
type_synonym type_index = nat
type_synonym weak_ptr = nat
type_synonym listener_ptr = nat

record Event =
  ptr :: nat
  priority :: int
  dyn_type :: type_index

text \<open>
  \<^verbatim>\<open>EventListener\<close> is an interface: \<^verbatim>\<open>onEvent\<close> and \<^verbatim>\<open>canHandle\<close> are pure
  virtual and implemented by application code. The listeners and their owners are the
  world \<open>'w\<close> outside the event system. \<open>lock w p\<close> is \<^verbatim>\<open>p.lock()\<close> in the world
  \<open>w\<close>: the listener the weak pointer \<open>p\<close> resolves to, or \<open>None\<close> for the null
  pointer of an expired one. A callback returns its boolean and the world it leaves
  behind (a callback may change any listener's state and may destroy listeners).
  Callbacks run under the non-recursive mutex of the event system, so they cannot
  call back into it: the registry and the queues are not theirs to change. A
  callback is taken to return; one that throws or loops is outside the model, as
  are other threads that destroy listeners while a pass is running.
\<close>

record 'w World =
  lock :: "'w \<Rightarrow> weak_ptr \<Rightarrow> listener_ptr option"
  canHandle :: "listener_ptr \<Rightarrow> Event \<Rightarrow> 'w \<Rightarrow> bool \<times> 'w"
  onEvent :: "listener_ptr \<Rightarrow> Event \<Rightarrow> 'w \<Rightarrow> bool \<times> 'w"

text \<open>What a dispatch pass does is observed as a log: one \<open>Delivery\<close> per
  iteration of the \<^verbatim>\<open>while\<close> loop (one popped event), holding the callback
  invocations made for that event, in order, with their results.\<close>

datatype Call =
  CanHandle weak_ptr listener_ptr bool
  | OnEvent weak_ptr listener_ptr bool

record Delivery =
  d_thread :: thread_id
  d_event :: Event
  d_calls :: "Call list"

fun call_weak :: "Call \<Rightarrow> weak_ptr" where
  "call_weak (CanHandle p l b) = p"
| "call_weak (OnEvent p l b) = p"





subsection \<open>The priority queue\<close>

definition CompareEventPriority :: "Event \<Rightarrow> Event \<Rightarrow> bool" where
  "CompareEventPriority lhs rhs = (priority lhs < priority rhs)"

text \<open>
  Modelled from the spec: \<^verbatim>\<open>std::priority_queue\<close> is the standard library's, not
  this repository's. Its contract is that \<^verbatim>\<open>top()\<close> is an element no other
  element is greater than under the comparator, and that \<^verbatim>\<open>pop()\<close> removes it.
  The queue is the list of its elements in the order they were pushed; \<open>pq_top\<close> is
  the earliest pushed element among the greatest ones (the spec's recommended FIFO
  tie-break; the standard fixes none). No claim depends on the tie-break.
\<close>

type_synonym priority_queue = "Event list"

definition pq_push :: "priority_queue \<Rightarrow> Event \<Rightarrow> priority_queue" where
  "pq_push q e = q @ [e]"

fun pq_greatest :: "Event \<Rightarrow> Event list \<Rightarrow> Event" where
  "pq_greatest best [] = best"
| "pq_greatest best (e # es) =
     (if CompareEventPriority best e then pq_greatest e es else pq_greatest best es)"

fun pq_top :: "priority_queue \<Rightarrow> Event option" where
  "pq_top [] = None"
| "pq_top (e # es) = Some (pq_greatest e es)"

fun pq_pop :: "priority_queue \<Rightarrow> priority_queue" where
  "pq_pop [] = []"
| "pq_pop (e # es) = remove1 (pq_greatest e es) (e # es)"

subsection \<open>The state of the event system\<close>

text \<open>
  The two hash containers are the standard library's, not this repository's.
  \<open>listeners\<close> (a \<^verbatim>\<open>std::unordered_multimap\<close>) is the list of its entries in the
  container's iteration order, and \<open>equal_range\<close> yields the entries of one key in
  that order. The C++ standard keeps the entries of one key adjacent and their
  relative order stable, but it does not fix where \<^verbatim>\<open>insert\<close> places a new entry
  among them: libstdc++ puts it before the older entries of its key, other
  libraries after them. The place is therefore a parameter of \<open>addListener\<close>: the
  new entry becomes entry number \<open>pos\<close> of the list (the last one when \<open>pos\<close> is
  beyond the end). \<open>eventQueues\<close> (a \<^verbatim>\<open>std::unordered_map\<close>) is the list of its
  entries in iteration order, which the standard leaves unspecified; a new key goes
  to the end here, and the theorems hold for every order of the list.
\<close>

record EventSystem =
  listeners :: "(type_index \<times> weak_ptr) list"
  eventQueues :: "(thread_id \<times> priority_queue) list"

definition equal_range :: "(type_index \<times> weak_ptr) list \<Rightarrow> type_index \<Rightarrow> weak_ptr list" where
  "equal_range ls k = map snd (filter (\<lambda>entry. fst entry = k) ls)"

definition addListener :: "nat \<Rightarrow> type_index \<Rightarrow> weak_ptr \<Rightarrow> EventSystem \<Rightarrow> EventSystem" where
  "addListener pos type listener s =
     s\<lparr>listeners := take pos (listeners s) @ (type, listener) # drop pos (listeners s)\<rparr>"

text \<open>The loop of \<^verbatim>\<open>removeListener\<close> over the registry; \<open>l\<close> is
  \<^verbatim>\<open>listener.lock()\<close> of the argument, possibly null (\<open>None\<close>).\<close>

fun removeLoop :: "'w World \<Rightarrow> 'w \<Rightarrow> listener_ptr option \<Rightarrow>
    (type_index \<times> weak_ptr) list \<Rightarrow> (type_index \<times> weak_ptr) list" where
  "removeLoop E w l [] = []"
| "removeLoop E w l (it # rest) =
     (case lock E w (snd it) of
        Some listener \<Rightarrow>
          (if Some listener = l then removeLoop E w l rest
           else it # removeLoop E w l rest)
      | None \<Rightarrow> removeLoop E w l rest)"

definition removeListener :: "'w World \<Rightarrow> 'w \<Rightarrow> weak_ptr \<Rightarrow> EventSystem \<Rightarrow> EventSystem" where
  "removeListener E w listener s =
     (let l = lock E w listener
      in s\<lparr>listeners := removeLoop E w l (listeners s)\<rparr>)"

text \<open>\<^verbatim>\<open>eventQueues[id]\<close> followed by \<^verbatim>\<open>queue.push(event)\<close>: the entry of the
  key is updated in place, and created at the end when there is none.\<close>

fun push_at :: "thread_id \<Rightarrow> Event \<Rightarrow> (thread_id \<times> priority_queue) list \<Rightarrow>
    (thread_id \<times> priority_queue) list" where
  "push_at t e [] = [(t, pq_push [] e)]"
| "push_at t e (pair # rest) =
     (if fst pair = t then (fst pair, pq_push (snd pair) e) # rest
      else pair # push_at t e rest)"

text \<open>\<open>this_thread\<close> is \<^verbatim>\<open>std::this_thread::get_id()\<close> of the caller.\<close>

definition pushEvent :: "thread_id \<Rightarrow> Event \<Rightarrow> EventSystem \<Rightarrow> EventSystem" where
  "pushEvent this_thread event s = s\<lparr>eventQueues := push_at this_thread event (eventQueues s)\<rparr>"

subsection \<open>Dispatch\<close>

text \<open>The \<^verbatim>\<open>for\<close> loop over \<open>range\<close>: the calls made for one event and the world
  afterwards. An expired entry is skipped; the loop breaks when \<open>onEvent\<close> returns
  true.\<close>

fun offer :: "'w World \<Rightarrow> Event \<Rightarrow> weak_ptr list \<Rightarrow> 'w \<Rightarrow> Call list \<times> 'w" where
  "offer E event [] w = ([], w)"
| "offer E event (it # rest) w =
     (case lock E w it of
        None \<Rightarrow> offer E event rest w
      | Some listener \<Rightarrow>
          (case canHandle E listener event w of
             (False, w1) \<Rightarrow>
               (case offer E event rest w1 of
                  (cs, w') \<Rightarrow> (CanHandle it listener False # cs, w'))
           | (True, w1) \<Rightarrow>
               (case onEvent E listener event w1 of
                  (True, w2) \<Rightarrow>
                    ([CanHandle it listener True, OnEvent it listener True], w2)
                | (False, w2) \<Rightarrow>
                    (case offer E event rest w2 of
                       (cs, w') \<Rightarrow>
                         (CanHandle it listener True # OnEvent it listener False # cs, w')))))"

lemma pq_greatest_in: "pq_greatest b es \<in> set (b # es)"
  by (induction es arbitrary: b) (auto split: if_splits)

lemma length_pq_pop: "length (pq_pop (e # es)) = length es"
  using pq_greatest_in [of e es] by (simp add: length_remove1 del: remove1.simps)

text \<open>The \<^verbatim>\<open>while (!queue.empty())\<close> loop on one queue: the deliveries, the queue
  the loop leaves and the world afterwards. The first equation is the empty queue;
  in the second the queue \<open>e # es\<close> is not empty, \<open>pq_greatest e es\<close> is its
  \<^verbatim>\<open>queue.top()\<close> (that is \<open>pq_top (e # es)\<close>) and \<open>pq_pop (e # es)\<close> the queue
  after \<^verbatim>\<open>queue.pop()\<close>, which runs whether or not a listener handled the
  event.\<close>

function drainQueue :: "'w World \<Rightarrow> (type_index \<times> weak_ptr) list \<Rightarrow> thread_id \<Rightarrow>
    priority_queue \<Rightarrow> 'w \<Rightarrow> Delivery list \<times> priority_queue \<times> 'w" where
  "drainQueue E ls t [] w = ([], [], w)"
| "drainQueue E ls t (e # es) w =
     (let event = pq_greatest e es;
          range = equal_range ls (dyn_type event);
          (cs, w1) = offer E event range w;
          (ds, q', w') = drainQueue E ls t (pq_pop (e # es)) w1
      in (\<lparr>d_thread = t, d_event = event, d_calls = cs\<rparr> # ds, q', w'))"
  by pat_completeness auto
termination
  by (relation "measure (\<lambda>(E, ls, t, q, w). length q)")
     (simp_all add: length_pq_pop del: pq_pop.simps)

text \<open>The outer \<^verbatim>\<open>for (auto& pair : eventQueues)\<close> loop.\<close>

fun dispatchQueues :: "'w World \<Rightarrow> (type_index \<times> weak_ptr) list \<Rightarrow>
    (thread_id \<times> priority_queue) list \<Rightarrow> 'w \<Rightarrow>
    Delivery list \<times> (thread_id \<times> priority_queue) list \<times> 'w" where
  "dispatchQueues E ls [] w = ([], [], w)"
| "dispatchQueues E ls (pair # rest) w =
     (case drainQueue E ls (fst pair) (snd pair) w of
        (ds, q', w1) \<Rightarrow>
          (case dispatchQueues E ls rest w1 of
             (ds', rest', w') \<Rightarrow> (ds @ ds', (fst pair, q') # rest', w')))"

definition dispatch :: "'w World \<Rightarrow> EventSystem \<Rightarrow> 'w \<Rightarrow> Delivery list \<times> EventSystem \<times> 'w" where
  "dispatch E s w =
     (case dispatchQueues E (listeners s) (eventQueues s) w of
        (ds, qs, w') \<Rightarrow> (ds, s\<lparr>eventQueues := qs\<rparr>, w'))"

subsection \<open>The delivery rule in the words of the specification\<close>





subsection \<open>A small world and state to run the definitions on\<close>

text \<open>
  In \<open>example_world\<close> the weak pointer 0 is expired and every other weak pointer
  \<open>p\<close> resolves to the listener \<open>p\<close>; every listener can handle every event, only
  listener 1 reports an event handled, and the world counts the callbacks made.
  \<open>damage\<close> and \<open>heal\<close> are the two events of the spec's scenario.
\<close>

definition example_world :: "nat World" where
  "example_world =
     \<lparr>lock = (\<lambda>w p. if p = 0 then None else Some p),
      canHandle = (\<lambda>l e w. (True, Suc w)),
      onEvent = (\<lambda>l e w. (l = 1, Suc w))\<rparr>"

definition damage :: Event where
  "damage = \<lparr>ptr = 1, priority = 5, dyn_type = 0\<rparr>"

definition heal :: Event where
  "heal = \<lparr>ptr = 2, priority = 9, dyn_type = 1\<rparr>"

definition example_state :: EventSystem where
  "example_state =
     \<lparr>listeners = [(0, 0), (0, 2), (0, 1), (0, 3), (1, 1), (1, 1)],
      eventQueues = [(7, [damage, heal]), (8, [damage])]\<rparr>"







subsection \<open>Facts about the priority queue and the two loops\<close>

lemma pq_greatest_start: "priority b \<le> priority (pq_greatest b es)"
proof (induction es arbitrary: b)
  case Nil show ?case by simp
next
  case (Cons e es)
  show ?case
    using Cons [of e] Cons [of b] by (auto simp: CompareEventPriority_def)
qed

lemma pq_greatest_max: "x \<in> set (b # es) \<Longrightarrow> priority x \<le> priority (pq_greatest b es)"
proof (induction es arbitrary: b)
  case Nil then show ?case by simp
next
  case (Cons e es)
  show ?case
  proof (cases "CompareEventPriority b e")
    case True
    have "priority b \<le> priority (pq_greatest e es)"
      using True pq_greatest_start [of e es] by (simp add: CompareEventPriority_def)
    then show ?thesis using True Cons.prems Cons.IH [of e] by auto
  next
    case False
    have "priority e \<le> priority (pq_greatest b es)"
      using False pq_greatest_start [of b es] by (simp add: CompareEventPriority_def)
    then show ?thesis using False Cons.prems Cons.IH [of b] by auto
  qed
qed

lemma mset_pq_pop: "mset (pq_pop (e # es)) + {#pq_greatest e es#} = mset (e # es)"
  using pq_greatest_in [of e es] by (simp del: remove1.simps)

lemma pq_contract:
  assumes "pq_top q = Some x"
  shows "x \<in> set q" and "\<forall>y \<in> set q. \<not> CompareEventPriority x y"
    and "mset (pq_pop q) + {#x#} = mset q"
proof -
  obtain e es where q: "q = e # es" and x: "x = pq_greatest e es"
    using assms by (cases q) auto
  show "x \<in> set q" unfolding q x by (rule pq_greatest_in)
  show "\<forall>y \<in> set q. \<not> CompareEventPriority x y"
    using pq_greatest_max [of _ e es] unfolding q x CompareEventPriority_def
    by (simp add: not_less)
  show "mset (pq_pop q) + {#x#} = mset q" unfolding q x by (rule mset_pq_pop)
qed

lemma drainQueue_Cons:
  "drainQueue E ls t (e # es) w =
     (let event = pq_greatest e es;
          r = offer E event (equal_range ls (dyn_type event)) w;
          rest = drainQueue E ls t (pq_pop (e # es)) (snd r)
      in (\<lparr>d_thread = t, d_event = event, d_calls = fst r\<rparr> # fst rest,
          fst (snd rest), snd (snd rest)))"
  by (simp add: Let_def split: prod.splits del: pq_pop.simps)

lemma queue_induct [case_names Empty Pop]:
  assumes "\<And>w. P [] w"
    and "\<And>e es w. (\<And>w1. P (pq_pop (e # es)) w1) \<Longrightarrow> P (e # es) w"
  shows "P q w"
proof (induction "length q" arbitrary: q w rule: less_induct)
  case less
  show ?case
  proof (cases q)
    case Nil then show ?thesis using assms(1) by simp
  next
    case (Cons e es)
    have "length (pq_pop (e # es)) < length q" using Cons by (simp add: length_pq_pop del: pq_pop.simps)
    then have "\<And>w1. P (pq_pop (e # es)) w1" using less by blast
    then show ?thesis using assms(2) Cons by blast
  qed
qed

lemma drain_leaves_empty: "fst (snd (drainQueue E ls t q w)) = []"
  by (induction q w rule: queue_induct)
     (simp_all add: drainQueue_Cons Let_def del: pq_pop.simps drainQueue.simps(2))

lemma drain_threads: "map d_thread (fst (drainQueue E ls t q w)) = replicate (length q) t"
  by (induction q w rule: queue_induct)
     (simp_all add: drainQueue_Cons Let_def length_pq_pop del: pq_pop.simps drainQueue.simps(2))

lemma drain_events: "mset (map d_event (fst (drainQueue E ls t q w))) = mset q"
proof (induction q w rule: queue_induct)
  case (Empty w) show ?case by simp
next
  case (Pop e es w)
  have "mset (map d_event (fst (drainQueue E ls t (e # es) w))) = mset (pq_pop (e # es)) + {#pq_greatest e es#}"
    using Pop by (simp add: drainQueue_Cons Let_def del: pq_pop.simps drainQueue.simps(2))
  then show ?case using mset_pq_pop [of e es] by simp
qed

lemma drain_sorted:
  "sorted_wrt (\<lambda>a b. priority b \<le> priority a) (map d_event (fst (drainQueue E ls t q w)))"
proof (induction q w rule: queue_induct)
  case (Empty w) show ?case by simp
next
  case (Pop e es w)
  define w1 where "w1 = snd (offer E (pq_greatest e es) (equal_range ls (dyn_type (pq_greatest e es))) w)"
  let ?rest = "map d_event (fst (drainQueue E ls t (pq_pop (e # es)) w1))"
  have ih: "sorted_wrt (\<lambda>a b. priority b \<le> priority a) ?rest"
    using Pop by simp
  have "set ?rest = set (pq_pop (e # es))"
    using drain_events [of E ls t "pq_pop (e # es)" w1] by (metis set_mset_mset)
  then have "set ?rest \<subseteq> set (e # es)"
    using set_remove1_subset [of "pq_greatest e es" "e # es"] by simp
  then have "\<forall>x \<in> set ?rest. priority x \<le> priority (pq_greatest e es)"
    using pq_greatest_max by blast
  then show ?case
    using ih by (simp add: drainQueue_Cons Let_def w1_def del: pq_pop.simps drainQueue.simps(2))
qed


lemma dispatchQueues_Cons:
  "dispatchQueues E ls (pair # rest) w =
     (let r = drainQueue E ls (fst pair) (snd pair) w;
          r2 = dispatchQueues E ls rest (snd (snd r))
      in (fst r @ fst r2, (fst pair, fst (snd r)) # fst (snd r2), snd (snd r2)))"
  by (simp add: Let_def split: prod.splits)

lemma dispatchQueues_keys: "map fst (fst (snd (dispatchQueues E ls qs w))) = map fst qs"
  by (induction qs arbitrary: w) (simp_all add: dispatchQueues_Cons Let_def del: dispatchQueues.simps(2))

lemma dispatchQueues_empty:
  "map snd (fst (snd (dispatchQueues E ls qs w))) = replicate (length qs) []"
  by (induction qs arbitrary: w)
     (simp_all add: dispatchQueues_Cons Let_def drain_leaves_empty del: dispatchQueues.simps(2))

lemma dispatchQueues_threads:
  "map d_thread (fst (dispatchQueues E ls qs w)) =
     concat (map (\<lambda>p. replicate (length (snd p)) (fst p)) qs)"
  by (induction qs arbitrary: w)
     (simp_all add: dispatchQueues_Cons Let_def drain_threads del: dispatchQueues.simps(2))

lemma drain_thread_each:
  assumes "d \<in> set (fst (drainQueue E ls t q w))"
  shows "d_thread d = t"
proof -
  have "d_thread d \<in> set (map d_thread (fst (drainQueue E ls t q w)))"
    using assms by simp
  then show ?thesis by (simp add: drain_threads split: if_splits)
qed

lemma drain_tagged_events:
  "mset (map (\<lambda>d. (d_thread d, d_event d)) (fst (drainQueue E ls t q w))) = mset (map (Pair t) q)"
proof -
  let ?ds = "fst (drainQueue E ls t q w)"
  have "map (\<lambda>d. (d_thread d, d_event d)) ?ds = map (Pair t) (map d_event ?ds)"
    using drain_thread_each [of _ E ls t q w] by simp
  then have "mset (map (\<lambda>d. (d_thread d, d_event d)) ?ds) = image_mset (Pair t) (mset (map d_event ?ds))"
    by (simp only: mset_map)
  also have "\<dots> = image_mset (Pair t) (mset q)"
    by (simp only: drain_events)
  finally show ?thesis by (simp only: mset_map)
qed

lemma dispatchQueues_events:
  "mset (map (\<lambda>d. (d_thread d, d_event d)) (fst (dispatchQueues E ls qs w))) =
     mset (concat (map (\<lambda>p. map (Pair (fst p)) (snd p)) qs))"
proof (induction qs arbitrary: w)
  case Nil show ?case by simp
next
  case (Cons pair rest)
  let ?r = "drainQueue E ls (fst pair) (snd pair) w"
  have "mset (map (\<lambda>d. (d_thread d, d_event d)) (fst (dispatchQueues E ls (pair # rest) w))) =
        mset (map (\<lambda>d. (d_thread d, d_event d)) (fst ?r)) +
        mset (map (\<lambda>d. (d_thread d, d_event d)) (fst (dispatchQueues E ls rest (snd (snd ?r)))))"
    by (simp add: dispatchQueues_Cons Let_def del: dispatchQueues.simps(2))
  also have "\<dots> = mset (map (Pair (fst pair)) (snd pair)) +
        mset (concat (map (\<lambda>p. map (Pair (fst p)) (snd p)) rest))"
    by (simp only: drain_tagged_events Cons.IH)
  finally show ?case by simp
qed

lemma dispatchQueues_thread_keys:
  assumes "d \<in> set (fst (dispatchQueues E ls qs w))"
  shows "d_thread d \<in> fst ` set qs"
proof -
  have "d_thread d \<in> set (map d_thread (fst (dispatchQueues E ls qs w)))"
    using assms by simp
  then show ?thesis by (auto simp: dispatchQueues_threads split: if_splits)
qed

lemma dispatchQueues_of_thread:
  assumes "distinct (map fst qs)" and "(t, q) \<in> set qs"
  shows "\<exists>w1. filter (\<lambda>d. d_thread d = t) (fst (dispatchQueues E ls qs w)) =
               fst (drainQueue E ls t q w1)"
  using assms
proof (induction qs arbitrary: w)
  case Nil then show ?case by simp
next
  case (Cons pair rest)
  let ?r = "drainQueue E ls (fst pair) (snd pair) w"
  let ?r2 = "dispatchQueues E ls rest (snd (snd ?r))"
  have split: "filter (\<lambda>d. d_thread d = t) (fst (dispatchQueues E ls (pair # rest) w)) =
      filter (\<lambda>d. d_thread d = t) (fst ?r) @ filter (\<lambda>d. d_thread d = t) (fst ?r2)"
    by (simp add: dispatchQueues_Cons Let_def del: dispatchQueues.simps(2))
  show ?case
  proof (cases "pair = (t, q)")
    case True
    have "t \<notin> fst ` set rest" using Cons.prems(1) True by auto
    then have "filter (\<lambda>d. d_thread d = t) (fst ?r2) = []"
      using dispatchQueues_thread_keys [of _ E ls rest "snd (snd ?r)"] by (auto simp: filter_empty_conv)
    moreover have "filter (\<lambda>d. d_thread d = t) (fst ?r) = fst ?r"
      using drain_thread_each [of _ E ls "fst pair" "snd pair" w] True by (auto simp: filter_id_conv)
    ultimately show ?thesis using split True by auto
  next
    case False
    then have in_rest: "(t, q) \<in> set rest" using Cons.prems(2) by simp
    then have "t \<in> fst ` set rest" by force
    then have "fst pair \<noteq> t" using Cons.prems(1) by auto
    then have "filter (\<lambda>d. d_thread d = t) (fst ?r) = []"
      using drain_thread_each [of _ E ls "fst pair" "snd pair" w] by (auto simp: filter_empty_conv)
    moreover have "\<exists>w1. filter (\<lambda>d. d_thread d = t) (fst ?r2) = fst (drainQueue E ls t q w1)"
      using Cons.IH [of "snd (snd ?r)"] Cons.prems(1) in_rest by simp
    ultimately show ?thesis using split by auto
  qed
qed

lemma sorted_desc_before:
  assumes "sorted_wrt (\<lambda>a b. f b \<le> (f a :: int)) xs"
    and "i < length xs" "j < length xs" "f (xs ! j) < f (xs ! i)"
  shows "i < j"
proof (rule ccontr)
  assume "\<not> i < j"
  then have "j = i \<or> j < i" by arith
  then show False
  proof
    assume "j = i" then show False using assms(4) by simp
  next
    assume "j < i"
    then have "f (xs ! i) \<le> f (xs ! j)"
      using assms(1,2) sorted_wrt_nth_less by fastforce
    then show False using assms(4) by simp
  qed
qed

lemma blocks_contiguous:
  assumes "distinct (map fst qs)"
    and "i \<le> j" "j \<le> k" "k < length (concat (map (\<lambda>p. replicate (n p) (fst p)) qs))"
    and "concat (map (\<lambda>p. replicate (n p) (fst p)) qs) ! i = concat (map (\<lambda>p. replicate (n p) (fst p)) qs) ! k"
  shows "concat (map (\<lambda>p. replicate (n p) (fst p)) qs) ! j = concat (map (\<lambda>p. replicate (n p) (fst p)) qs) ! i"
  using assms
proof (induction qs arbitrary: i j k)
  case Nil then show ?case by simp
next
  case (Cons p rest)
  let ?xs = "concat (map (\<lambda>p. replicate (n p) (fst p)) rest)"
  have notin: "fst p \<notin> set ?xs" using Cons.prems(1) by auto
  have len: "k < n p + length ?xs" using Cons.prems(4) by simp
  show ?case
  proof (cases "k < n p")
    case True
    then show ?thesis using Cons.prems(2,3) by (simp add: nth_append)
  next
    case kge: False
    show ?thesis
    proof (cases "i < n p")
      case True
      have "k - n p < length ?xs" using kge len by arith
      then have "?xs ! (k - n p) \<in> set ?xs" by (rule nth_mem)
      then have "?xs ! (k - n p) \<noteq> fst p" using notin by metis
      then show ?thesis using True kge Cons.prems(5) by (simp add: nth_append)
    next
      case False
      have "?xs ! (j - n p) = ?xs ! (i - n p)"
        using Cons.IH [of "i - n p" "j - n p" "k - n p"] Cons.prems False kge len
        by (simp add: nth_append)
      then show ?thesis using False Cons.prems(2) by (simp add: nth_append)
    qed
  qed
qed

lemma dispatch_proj:
  "dispatch E s w =
     (let r = dispatchQueues E (listeners s) (eventQueues s) w
      in (fst r, s\<lparr>eventQueues := fst (snd r)\<rparr>, snd (snd r)))"
  by (simp add: dispatch_def Let_def split: prod.splits)

lemma map_of_push_at_other: "t' \<noteq> t \<Longrightarrow> map_of (push_at t e qs) t' = map_of qs t'"
  by (induction qs) auto

lemma map_of_push_at_same:
  "map_of (push_at t e qs) t = Some (pq_push (case map_of qs t of None \<Rightarrow> [] | Some q \<Rightarrow> q) e)"
  by (induction qs) auto

lemma keys_push_at: "set (map fst (push_at t e qs)) = insert t (set (map fst qs))"
  by (induction qs) auto

lemma distinct_push_at: "distinct (map fst qs) \<Longrightarrow> distinct (map fst (push_at t e qs))"
proof (induction qs)
  case Nil show ?case by simp
next
  case (Cons pair rest)
  have "set (map fst (push_at t e rest)) = insert t (set (map fst rest))" by (rule keys_push_at)
  then show ?case using Cons by auto
qed

lemma distinct_keys_preserved:
  assumes "distinct (map fst (eventQueues s))"
  shows "distinct (map fst (eventQueues (pushEvent t e s)))"
    and "distinct (map fst (eventQueues (fst (snd (dispatch E s w)))))"
    and "distinct (map fst (eventQueues (addListener pos k p s)))"
    and "distinct (map fst (eventQueues (removeListener E w p s)))"
  using assms
  by (simp_all add: pushEvent_def distinct_push_at dispatch_proj Let_def dispatchQueues_keys
      addListener_def removeListener_def)

lemma removeLoop_filter:
  "removeLoop E w l ls = filter (\<lambda>it. lock E w (snd it) \<noteq> None \<and> lock E w (snd it) \<noteq> l) ls"
  by (induction ls) (auto split: option.splits)

subsection \<open>Facts about the delivery of one event\<close>

lemma offer_cases [case_names Nil Expired Declined Handled Unhandled]:
  assumes "\<And>w. P [] w"
    and "\<And>it rest w. lock E w it = None \<Longrightarrow> P rest w \<Longrightarrow> P (it # rest) w"
    and "\<And>it rest w l w1. lock E w it = Some l \<Longrightarrow> canHandle E l ev w = (False, w1) \<Longrightarrow>
          P rest w1 \<Longrightarrow> P (it # rest) w"
    and "\<And>it rest w l w1 w2. lock E w it = Some l \<Longrightarrow> canHandle E l ev w = (True, w1) \<Longrightarrow>
          onEvent E l ev w1 = (True, w2) \<Longrightarrow> P (it # rest) w"
    and "\<And>it rest w l w1 w2. lock E w it = Some l \<Longrightarrow> canHandle E l ev w = (True, w1) \<Longrightarrow>
          onEvent E l ev w1 = (False, w2) \<Longrightarrow> P rest w2 \<Longrightarrow> P (it # rest) w"
  shows "P r w"
proof (induction r arbitrary: w)
  case Nil show ?case by (rule assms(1))
next
  case (Cons it rest)
  show ?case
  proof (cases "lock E w it")
    case None
    then show ?thesis using assms(2) Cons by blast
  next
    case (Some l)
    obtain c w1 where c: "canHandle E l ev w = (c, w1)" by (cases "canHandle E l ev w")
    show ?thesis
    proof (cases c)
      case False
      then have "canHandle E l ev w = (False, w1)" using c by simp
      then show ?thesis using assms(3) [OF Some _ Cons] by blast
    next
      case True
      then have c': "canHandle E l ev w = (True, w1)" using c by simp
      obtain h w2 where h: "onEvent E l ev w1 = (h, w2)" by (cases "onEvent E l ev w1")
      show ?thesis
      proof (cases h)
        case True
        then have "onEvent E l ev w1 = (True, w2)" using h by simp
        then show ?thesis using assms(4) [OF Some c'] by blast
      next
        case False
        then have "onEvent E l ev w1 = (False, w2)" using h by simp
        then show ?thesis using assms(5) [OF Some c' _ Cons] by blast
      qed
    qed
  qed
qed







lemma offer_expired:
  "\<forall>w' l e. lock E w' p = None \<longrightarrow>
      lock E (snd (canHandle E l e w')) p = None \<and> lock E (snd (onEvent E l e w')) p = None \<Longrightarrow>
   lock E w p = None \<Longrightarrow>
   (\<forall>c \<in> set (fst (offer E ev r w)). call_weak c \<noteq> p) \<and> lock E (snd (offer E ev r w)) p = None"
proof (induction r w rule: offer_cases [where E = E and ev = ev])
  case (Nil w)
  then show ?case by simp
next
  case (Expired it rest w)
  then show ?case by simp
next
  case (Declined it rest w l w1)
  have "lock E (snd (canHandle E l ev w)) p = None" using Declined.prems by blast
  then have "lock E w1 p = None" using Declined.hyps by simp
  moreover have "it \<noteq> p" using Declined.hyps Declined.prems by auto
  ultimately show ?case using Declined by (auto split: prod.splits)
next
  case (Handled it rest w l w1 w2)
  have "lock E (snd (canHandle E l ev w)) p = None" using Handled.prems by blast
  then have "lock E w1 p = None" using Handled.hyps by simp
  then have "lock E (snd (onEvent E l ev w1)) p = None" using Handled.prems by blast
  then have "lock E w2 p = None" using Handled.hyps by simp
  moreover have "it \<noteq> p" using Handled.hyps Handled.prems by auto
  ultimately show ?case using Handled by simp
next
  case (Unhandled it rest w l w1 w2)
  have "lock E (snd (canHandle E l ev w)) p = None" using Unhandled.prems by blast
  then have "lock E w1 p = None" using Unhandled.hyps by simp
  then have "lock E (snd (onEvent E l ev w1)) p = None" using Unhandled.prems by blast
  then have "lock E w2 p = None" using Unhandled.hyps by simp
  moreover have "it \<noteq> p" using Unhandled.hyps Unhandled.prems by auto
  ultimately show ?case using Unhandled by (auto split: prod.splits)
qed

lemma drain_expired:
  "\<forall>w' l e. lock E w' p = None \<longrightarrow>
      lock E (snd (canHandle E l e w')) p = None \<and> lock E (snd (onEvent E l e w')) p = None \<Longrightarrow>
   lock E w p = None \<Longrightarrow>
   (\<forall>d \<in> set (fst (drainQueue E ls t q w)). \<forall>c \<in> set (d_calls d). call_weak c \<noteq> p) \<and>
   lock E (snd (snd (drainQueue E ls t q w))) p = None"
proof (induction q w rule: queue_induct)
  case (Empty w)
  then show ?case by simp
next
  case (Pop e es w)
  let ?o = "offer E (pq_greatest e es) (equal_range ls (dyn_type (pq_greatest e es))) w"
  have o: "(\<forall>c \<in> set (fst ?o). call_weak c \<noteq> p) \<and> lock E (snd ?o) p = None"
    using offer_expired [OF Pop.prems] .
  then have "(\<forall>d \<in> set (fst (drainQueue E ls t (pq_pop (e # es)) (snd ?o))).
        \<forall>c \<in> set (d_calls d). call_weak c \<noteq> p) \<and>
      lock E (snd (snd (drainQueue E ls t (pq_pop (e # es)) (snd ?o)))) p = None"
    using Pop.IH [of "snd ?o"] Pop.prems(1) by blast
  then show ?case using o
    by (simp add: drainQueue_Cons Let_def del: pq_pop.simps drainQueue.simps(2))
qed

lemma dispatchQueues_expired:
  "\<forall>w' l e. lock E w' p = None \<longrightarrow>
      lock E (snd (canHandle E l e w')) p = None \<and> lock E (snd (onEvent E l e w')) p = None \<Longrightarrow>
   lock E w p = None \<Longrightarrow>
   (\<forall>d \<in> set (fst (dispatchQueues E ls qs w)). \<forall>c \<in> set (d_calls d). call_weak c \<noteq> p) \<and>
   lock E (snd (snd (dispatchQueues E ls qs w))) p = None"
proof (induction qs arbitrary: w)
  case Nil
  then show ?case by simp
next
  case (Cons pair rest)
  let ?r = "drainQueue E ls (fst pair) (snd pair) w"
  have r: "(\<forall>d \<in> set (fst ?r). \<forall>c \<in> set (d_calls d). call_weak c \<noteq> p) \<and>
      lock E (snd (snd ?r)) p = None"
    using drain_expired [OF Cons.prems] .
  then have "(\<forall>d \<in> set (fst (dispatchQueues E ls rest (snd (snd ?r)))).
        \<forall>c \<in> set (d_calls d). call_weak c \<noteq> p) \<and>
      lock E (snd (snd (dispatchQueues E ls rest (snd (snd ?r))))) p = None"
    using Cons.IH [of "snd (snd ?r)"] Cons.prems(1) by blast
  then show ?case using r
    by (auto simp: dispatchQueues_Cons Let_def simp del: dispatchQueues.simps(2))
qed

subsection \<open>The code against the rule of the specification\<close>















subsection \<open>The example, run\<close>

lemma example_run:
  "dispatch example_world example_state 0 =
    ([\<lparr>d_thread = 7, d_event = heal, d_calls = [CanHandle 1 1 True, OnEvent 1 1 True]\<rparr>,
      \<lparr>d_thread = 7, d_event = damage,
       d_calls = [CanHandle 2 2 True, OnEvent 2 2 False, CanHandle 1 1 True, OnEvent 1 1 True]\<rparr>,
      \<lparr>d_thread = 8, d_event = damage,
       d_calls = [CanHandle 2 2 True, OnEvent 2 2 False, CanHandle 1 1 True, OnEvent 1 1 True]\<rparr>],
     example_state\<lparr>eventQueues := [(7, []), (8, [])]\<rparr>, 10)"
  by (simp add: example_world_def example_state_def damage_def heal_def dispatch_def
      equal_range_def CompareEventPriority_def)

section \<open>The claims\<close>

text \<open>
  C1. Within one per-thread queue, events are dispatched in strict priority order.
  The deliveries of one dispatch pass for the queue of thread \<open>t\<close> are the events
  of that queue, each once; and whenever one of them has a strictly greater priority
  than another, it is popped and offered to the listeners at an earlier position of
  the pass. (The queue store is a map: its keys are distinct.)
\<close>

theorem dispatch_priority_order:
  assumes "distinct (map fst (eventQueues s))"
    and "(t, q) \<in> set (eventQueues s)"
    and "popped = map d_event (filter (\<lambda>d. d_thread d = t) (fst (dispatch E s w)))"
  shows "mset popped = mset q \<and>
    (\<forall>i j. i < length popped \<and> j < length popped \<and>
        priority (popped ! j) < priority (popped ! i) \<longrightarrow> i < j)"
proof -
  have ds: "fst (dispatch E s w) = fst (dispatchQueues E (listeners s) (eventQueues s) w)"
    by (simp add: dispatch_def split: prod.splits)
  obtain w1 where w1: "filter (\<lambda>d. d_thread d = t) (fst (dispatch E s w)) =
      fst (drainQueue E (listeners s) t q w1)"
    using dispatchQueues_of_thread [OF assms(1,2), of E "listeners s" w] ds by auto
  have p: "popped = map d_event (fst (drainQueue E (listeners s) t q w1))"
    using assms(3) w1 by simp
  have "mset popped = mset q" unfolding p by (rule drain_events)
  moreover have "sorted_wrt (\<lambda>a b. priority b \<le> priority a) popped"
    unfolding p by (rule drain_sorted)
  then have "\<forall>i j. i < length popped \<and> j < length popped \<and>
        priority (popped ! j) < priority (popped ! i) \<longrightarrow> i < j"
    using sorted_desc_before [of priority popped] by blast
  ultimately show ?thesis by blast
qed

theorem dispatch_priority_order_witness:
  "distinct (map fst (eventQueues example_state)) \<and>
   (7, [damage, heal]) \<in> set (eventQueues example_state) \<and>
   map d_event (filter (\<lambda>d. d_thread d = 7) (fst (dispatch example_world example_state 0))) =
     [heal, damage] \<and>
   mset [heal, damage] = mset [damage, heal] \<and>
   priority ([heal, damage] ! 1) < priority ([heal, damage] ! 0) \<and>
   (0::nat) < 1"
proof -
  have h1: "distinct (map fst (eventQueues example_state))"
    by (simp add: example_state_def)
  have h2: "(7, [damage, heal]) \<in> set (eventQueues example_state)"
    by (simp add: example_state_def)
  have run: "map d_event (filter (\<lambda>d. d_thread d = 7)
      (fst (dispatch example_world example_state 0))) = [heal, damage]"
    by (simp add: example_run)
  have less: "priority ([heal, damage] ! 1) < priority ([heal, damage] ! 0)"
    by (simp add: damage_def heal_def)
  have concl: "mset [heal, damage] = mset [damage, heal] \<and>
      (\<forall>i j. i < length [heal, damage] \<and> j < length [heal, damage] \<and>
        priority ([heal, damage] ! j) < priority ([heal, damage] ! i) \<longrightarrow> i < j)"
    using dispatch_priority_order [OF h1 h2 refl, of example_world 0] unfolding run .
  have before: "(0::nat) < 1"
    by (rule concl [THEN conjunct2, rule_format, of 0 1]) (simp add: damage_def heal_def)
  show ?thesis
    apply (intro conjI)
         apply (rule h1)
        apply (rule h2)
       apply (rule run)
      apply (rule concl [THEN conjunct1])
     apply (rule less)
    apply (rule before)
    done
qed

text \<open>
  C3. One call of dispatch drains the queue of every thread: afterwards the store has
  the same keys and every queue is empty, and the deliveries of the pass are exactly
  the events that were queued, each popped once in the name of its own queue,
  whatever the callbacks of the world \<open>E\<close> answer (an event nobody handled is
  dropped with the others).
\<close>

theorem dispatch_drains_every_queue:
  "map fst (eventQueues (fst (snd (dispatch E s w)))) = map fst (eventQueues s) \<and>
   map snd (eventQueues (fst (snd (dispatch E s w)))) = replicate (length (eventQueues s)) [] \<and>
   mset (map (\<lambda>d. (d_thread d, d_event d)) (fst (dispatch E s w))) =
     mset (concat (map (\<lambda>p. map (Pair (fst p)) (snd p)) (eventQueues s)))"
proof -
  obtain ds qs w' where r: "dispatchQueues E (listeners s) (eventQueues s) w = (ds, qs, w')"
    by (cases "dispatchQueues E (listeners s) (eventQueues s) w")
  have "map fst qs = map fst (eventQueues s)"
    using dispatchQueues_keys [of E "listeners s" "eventQueues s" w] r by simp
  moreover have "map snd qs = replicate (length (eventQueues s)) []"
    using dispatchQueues_empty [of E "listeners s" "eventQueues s" w] r by simp
  moreover have "mset (map (\<lambda>d. (d_thread d, d_event d)) ds) =
     mset (concat (map (\<lambda>p. map (Pair (fst p)) (snd p)) (eventQueues s)))"
    using dispatchQueues_events [of E "listeners s" "eventQueues s" w] r by simp
  ultimately show ?thesis by (simp add: dispatch_def r)
qed

text \<open>
  C10. Within one dispatch pass the queues are processed one at a time to
  exhaustion: the threads of the deliveries are the keys of the store in its
  iteration order, each repeated as often as its queue has events; so between two
  deliveries of one thread's queue there is no delivery of another thread's.
\<close>

theorem dispatch_queue_at_a_time:
  assumes "distinct (map fst (eventQueues s))"
    and "ds = fst (dispatch E s w)"
  shows "map d_thread ds =
      concat (map (\<lambda>p. replicate (length (snd p)) (fst p)) (eventQueues s)) \<and>
    (\<forall>i j k. i \<le> j \<and> j \<le> k \<and> k < length ds \<and> d_thread (ds ! i) = d_thread (ds ! k)
        \<longrightarrow> d_thread (ds ! j) = d_thread (ds ! i))"
proof -
  let ?blocks = "concat (map (\<lambda>p. replicate (length (snd p)) (fst p)) (eventQueues s))"
  have "ds = fst (dispatchQueues E (listeners s) (eventQueues s) w)"
    using assms(2) by (simp add: dispatch_def split: prod.splits)
  then have blocks: "map d_thread ds = ?blocks"
    by (simp only: dispatchQueues_threads)
  have len: "length ds = length ?blocks"
    using blocks by (metis length_map)
  have "d_thread (ds ! j) = d_thread (ds ! i)"
    if h: "i \<le> j" "j \<le> k" "k < length ds" "d_thread (ds ! i) = d_thread (ds ! k)" for i j k
  proof -
    have nth: "d_thread (ds ! m) = ?blocks ! m" if "m < length ds" for m
      using that blocks by (metis nth_map)
    have "?blocks ! j = ?blocks ! i"
      using blocks_contiguous [OF assms(1), of i j k "\<lambda>p. length (snd p)"] h len nth [of i] nth [of k]
      by simp
    then show ?thesis using nth [of i] nth [of j] h by simp
  qed
  then show ?thesis using blocks by blast
qed


theorem dispatch_queue_at_a_time_witness:
  "distinct (map fst (eventQueues example_state)) \<and>
   map d_thread (fst (dispatch example_world example_state 0)) = [7, 7, 8] \<and>
   d_thread (fst (dispatch example_world example_state 0) ! 0) =
     d_thread (fst (dispatch example_world example_state 0) ! 1) \<and>
   d_thread (fst (dispatch example_world example_state 0) ! 1) = 7"
proof -
  let ?ds = "fst (dispatch example_world example_state 0)"
  have h1: "distinct (map fst (eventQueues example_state))"
    by (simp add: example_state_def)
  note inst = dispatch_queue_at_a_time [OF h1 refl, of example_world 0]
  have "map d_thread ?ds =
      concat (map (\<lambda>p. replicate (length (snd p)) (fst p)) (eventQueues example_state))"
    by (rule inst [THEN conjunct1])
  then have threads: "map d_thread ?ds = [7, 7, 8]"
    by (simp add: example_state_def)
  have pre: "(0::nat) \<le> 1 \<and> (1::nat) \<le> 1 \<and> 1 < length ?ds \<and> d_thread (?ds ! 0) = d_thread (?ds ! 1)"
    by (simp add: example_run)
  have "d_thread (?ds ! 1) = d_thread (?ds ! 0)"
    by (rule inst [THEN conjunct2, rule_format, of 0 1 1]) (rule pre)
  then show ?thesis using h1 threads by (simp add: example_run)
qed

text \<open>
  C4. \<open>removeListener\<close> removes, under every key, exactly the entries that resolve to
  the listener its argument resolves to and the entries that no longer resolve at
  all; the entries it keeps stay as they were, in their order. So when no live entry
  resolves to what the argument resolves to (the listener was never registered, or
  the argument has expired and resolves to null), every live registration is kept.
  The queues are not touched, and there is no error value to return.
\<close>

theorem removeListener_exact:
  "listeners (removeListener E w p s) =
     filter (\<lambda>it. lock E w (snd it) \<noteq> None \<and> lock E w (snd it) \<noteq> lock E w p) (listeners s) \<and>
   eventQueues (removeListener E w p s) = eventQueues s \<and>
   ((\<forall>it \<in> set (listeners s). lock E w (snd it) \<noteq> None \<longrightarrow> lock E w (snd it) \<noteq> lock E w p) \<longrightarrow>
      filter (\<lambda>it. lock E w (snd it) \<noteq> None) (listeners (removeListener E w p s)) =
      filter (\<lambda>it. lock E w (snd it) \<noteq> None) (listeners s))"
proof -
  have l: "listeners (removeListener E w p s) =
     filter (\<lambda>it. lock E w (snd it) \<noteq> None \<and> lock E w (snd it) \<noteq> lock E w p) (listeners s)"
    by (simp add: removeListener_def Let_def removeLoop_filter)
  have "filter (\<lambda>it. lock E w (snd it) \<noteq> None) (listeners (removeListener E w p s)) =
      filter (\<lambda>it. lock E w (snd it) \<noteq> None) (listeners s)"
    if "\<forall>it \<in> set (listeners s). lock E w (snd it) \<noteq> None \<longrightarrow> lock E w (snd it) \<noteq> lock E w p"
  proof -
    have "filter (\<lambda>it. lock E w (snd it) \<noteq> None) (listeners (removeListener E w p s)) =
        filter (\<lambda>it. lock E w (snd it) \<noteq> None \<and> lock E w (snd it) \<noteq> lock E w p) (listeners s)"
      unfolding l by (simp add: conj_commute cong: conj_cong)
    also have "\<dots> = filter (\<lambda>it. lock E w (snd it) \<noteq> None) (listeners s)"
      using that by (intro filter_cong) auto
    finally show ?thesis .
  qed
  then show ?thesis using l by (simp add: removeListener_def Let_def)
qed

theorem removeListener_exact_witness:
  "listeners (removeListener example_world 0 2 example_state) = [(0, 1), (0, 3), (1, 1), (1, 1)] \<and>
   listeners (removeListener example_world 0 5 example_state) = [(0, 2), (0, 1), (0, 3), (1, 1), (1, 1)] \<and>
   filter (\<lambda>it. lock example_world 0 (snd it) \<noteq> None) (listeners example_state) =
     [(0, 2), (0, 1), (0, 3), (1, 1), (1, 1)]"
proof -
  have pre: "\<forall>it \<in> set (listeners example_state). lock example_world 0 (snd it) \<noteq> None \<longrightarrow>
      lock example_world 0 (snd it) \<noteq> lock example_world 0 5"
    by (simp add: example_state_def example_world_def)
  have "filter (\<lambda>it. lock example_world 0 (snd it) \<noteq> None)
          (listeners (removeListener example_world 0 5 example_state)) =
        filter (\<lambda>it. lock example_world 0 (snd it) \<noteq> None) (listeners example_state)"
    using removeListener_exact [of example_world 0 5 example_state] pre by blast
  then show ?thesis
    by (simp add: example_state_def example_world_def removeListener_def)
qed

text \<open>
  C7, as the spec states it, fails: dispatch only skips an entry that no longer
  resolves and never erases from the registry. In the example the entry \<open>(0, 0)\<close>
  under key 0 has expired, the event \<open>damage\<close> of dynamic type 0 is routed, and the
  entry is still registered after the pass.
\<close>

theorem dispatch_keeps_expired_entry:
  "(0, 0) \<in> set (listeners (fst (snd (dispatch example_world example_state 0)))) \<and>
   lock example_world (snd (snd (dispatch example_world example_state 0))) 0 = None \<and>
   d_event (fst (dispatch example_world example_state 0) ! 1) = damage \<and>
   dyn_type damage = 0"
  by (simp add: example_run) (simp add: example_state_def example_world_def damage_def)

text \<open>
  C7, amended. Only \<open>removeListener\<close> purges: after it no entry of the registry
  fails to resolve. Dispatch leaves the registry exactly as it was.
\<close>

theorem purge_on_remove_only:
  "(\<forall>it \<in> set (listeners (removeListener E w p s)). lock E w (snd it) \<noteq> None) \<and>
   listeners (fst (snd (dispatch E s w))) = listeners s"
  by (simp add: removeListener_def Let_def removeLoop_filter dispatch_proj)

theorem purge_on_remove_only_witness:
  "listeners (removeListener example_world 0 5 example_state) = [(0, 2), (0, 1), (0, 3), (1, 1), (1, 1)] \<and>
   lock example_world 0 2 \<noteq> None \<and> lock example_world 0 1 \<noteq> None \<and> lock example_world 0 3 \<noteq> None \<and>
   lock example_world 0 0 = None \<and>
   listeners (fst (snd (dispatch example_world example_state 0))) = listeners example_state"
proof -
  have l: "listeners (removeListener example_world 0 5 example_state) =
      [(0, 2), (0, 1), (0, 3), (1, 1), (1, 1)]"
    by (simp add: example_state_def example_world_def removeListener_def)
  have "\<forall>it \<in> set (listeners (removeListener example_world 0 5 example_state)).
      lock example_world 0 (snd it) \<noteq> None"
    and d: "listeners (fst (snd (dispatch example_world example_state 0))) = listeners example_state"
    using purge_on_remove_only [of example_world 0 5 example_state] by blast+
  then have "lock example_world 0 2 \<noteq> None \<and> lock example_world 0 1 \<noteq> None \<and>
      lock example_world 0 3 \<noteq> None"
    by (simp add: l)
  moreover have "lock example_world 0 0 = None" by (simp add: example_world_def)
  ultimately show ?thesis using l d by blast
qed

text \<open>
  C8. \<open>pushEvent\<close> leaves the registry alone and changes only the queue of the
  calling thread \<open>t\<close>: every other key looks up what it did before, the keys are
  the old ones and \<open>t\<close>, and the queue of \<open>t\<close> holds what it held before (nothing
  when it did not exist) and the one new event.
\<close>

theorem pushEvent_frame:
  "listeners (pushEvent t e s) = listeners s \<and>
   (\<forall>t'. t' \<noteq> t \<longrightarrow> map_of (eventQueues (pushEvent t e s)) t' = map_of (eventQueues s) t') \<and>
   set (map fst (eventQueues (pushEvent t e s))) = insert t (set (map fst (eventQueues s))) \<and>
   (\<exists>q'. map_of (eventQueues (pushEvent t e s)) t = Some q' \<and>
      mset q' = mset (case map_of (eventQueues s) t of None \<Rightarrow> [] | Some q \<Rightarrow> q) + {#e#})"
proof -
  have "mset (pq_push (case map_of (eventQueues s) t of None \<Rightarrow> [] | Some q \<Rightarrow> q) e) =
      mset (case map_of (eventQueues s) t of None \<Rightarrow> [] | Some q \<Rightarrow> q) + {#e#}"
    by (simp add: pq_push_def)
  then show ?thesis
    by (simp add: pushEvent_def map_of_push_at_other map_of_push_at_same keys_push_at
        del: set_map)
qed

theorem pushEvent_frame_witness:
  "(8::nat) \<noteq> 9 \<and>
   map_of (eventQueues (pushEvent 9 heal example_state)) 8 = Some [damage] \<and>
   map_of (eventQueues (pushEvent 9 heal example_state)) 7 = Some [damage, heal] \<and>
   map_of (eventQueues (pushEvent 9 heal example_state)) 9 = Some [heal] \<and>
   map_of (eventQueues example_state) 9 = None"
proof -
  have "map_of (eventQueues (pushEvent 9 heal example_state)) 8 = map_of (eventQueues example_state) 8"
    and "map_of (eventQueues (pushEvent 9 heal example_state)) 7 = map_of (eventQueues example_state) 7"
    using pushEvent_frame [of 9 heal example_state] by simp_all
  then show ?thesis
    by (simp add: example_state_def pushEvent_def pq_push_def)
qed

text \<open>
  C9. No operation removes a key from the queue store: \<open>pushEvent\<close> keeps every
  key (and may add the caller's), dispatch keeps the keys as they are although it
  empties the queues, and \<open>addListener\<close> and \<open>removeListener\<close> do not touch the
  store.
\<close>

theorem queue_store_keys_monotone:
  "set (map fst (eventQueues s)) \<subseteq> set (map fst (eventQueues (pushEvent t e s))) \<and>
   map fst (eventQueues (fst (snd (dispatch E s w)))) = map fst (eventQueues s) \<and>
   eventQueues (addListener pos k p s) = eventQueues s \<and>
   eventQueues (removeListener E w p s) = eventQueues s"
proof -
  have "map fst (eventQueues (fst (snd (dispatch E s w)))) = map fst (eventQueues s)"
    by (simp add: dispatch_proj Let_def dispatchQueues_keys)
  moreover have "set (map fst (eventQueues s)) \<subseteq> set (map fst (eventQueues (pushEvent t e s)))"
    using keys_push_at [of t e "eventQueues s"] by (auto simp: pushEvent_def)
  ultimately show ?thesis
    by (simp add: addListener_def removeListener_def Let_def)
qed




text \<open>
  C5. Weak lifetime. When the weak pointer \<open>p\<close> of a registration no longer
  resolves at the start of a dispatch (and, as a weak pointer does, stays expired
  whatever the callbacks do), the pass makes no call, neither \<open>canHandle\<close> nor
  \<open>onEvent\<close>, through \<open>p\<close>. The pass runs to its end: \<open>dispatch\<close> is a total
  function with no error result, every queue is empty afterwards and the registry is
  as it was.
\<close>

theorem expired_listener_not_called:
  assumes "lock E w p = None"
    and "\<forall>w' l e. lock E w' p = None \<longrightarrow>
      lock E (snd (canHandle E l e w')) p = None \<and> lock E (snd (onEvent E l e w')) p = None"
  shows "(\<forall>d \<in> set (fst (dispatch E s w)). \<forall>c \<in> set (d_calls d). call_weak c \<noteq> p) \<and>
    map snd (eventQueues (fst (snd (dispatch E s w)))) = replicate (length (eventQueues s)) [] \<and>
    listeners (fst (snd (dispatch E s w))) = listeners s"
  using dispatchQueues_expired [OF assms(2,1), of "listeners s" "eventQueues s"]
  by (simp add: dispatch_proj Let_def dispatchQueues_empty)

theorem expired_listener_not_called_witness:
  "lock example_world 0 0 = None \<and>
   equal_range (listeners example_state) (dyn_type damage) = [0, 2, 1, 3] \<and>
   d_event (fst (dispatch example_world example_state 0) ! 1) = damage \<and>
   d_calls (fst (dispatch example_world example_state 0) ! 1) =
     [CanHandle 2 2 True, OnEvent 2 2 False, CanHandle 1 1 True, OnEvent 1 1 True] \<and>
   0 \<notin> call_weak ` set (d_calls (fst (dispatch example_world example_state 0) ! 1))"
proof -
  have h1: "lock example_world 0 0 = None" by (simp add: example_world_def)
  have h2: "\<forall>w' l e. lock example_world w' 0 = None \<longrightarrow>
      lock example_world (snd (canHandle example_world l e w')) 0 = None \<and>
      lock example_world (snd (onEvent example_world l e w')) 0 = None"
    by (simp add: example_world_def)
  have mem: "fst (dispatch example_world example_state 0) ! 1 \<in>
      set (fst (dispatch example_world example_state 0))"
    by (simp add: example_run)
  have "\<forall>c \<in> set (d_calls (fst (dispatch example_world example_state 0) ! 1)). call_weak c \<noteq> 0"
    using expired_listener_not_called [OF h1 h2, of example_state] mem by blast
  then have "0 \<notin> call_weak ` set (d_calls (fst (dispatch example_world example_state 0) ! 1))"
    by auto
  moreover have "equal_range (listeners example_state) (dyn_type damage) = [0, 2, 1, 3]"
    by (simp add: example_state_def equal_range_def damage_def)
  moreover have "d_event (fst (dispatch example_world example_state 0) ! 1) = damage"
    "d_calls (fst (dispatch example_world example_state 0) ! 1) =
     [CanHandle 2 2 True, OnEvent 2 2 False, CanHandle 1 1 True, OnEvent 1 1 True]"
    by (simp_all add: example_run)
  ultimately show ?thesis using h1 by blast
qed





end
